theory Spec2Isabelle
  imports Complex_Main
begin

section \<open>JavaScript values\<close>

text \<open>
  The analyzer of \<^verbatim>\<open>app.js\<close> works on the result of \<^verbatim>\<open>JSON.parse\<close>, a dynamically
  typed value, so the embedding keeps a type of JavaScript values. A number is the
  mathematical value of the double it denotes (\<open>-0\<close> and \<open>+0\<close> are both \<open>Fin 0\<close>: the code
  only compares numbers and tests them for truthiness, which does not tell them apart).
  A string is a list of characters, one per code unit (code units above 255 are outside
  the model). An object is the list of its own properties in the order
  \<^verbatim>\<open>Object.entries\<close> enumerates them, with distinct keys.
\<close>

datatype jsnum = NaN | NegInf | Fin rat | PosInf

datatype jsval =
    JUndefined
  | JNull
  | JBool bool
  | JNum jsnum
  | JStr string
  | JArr "jsval list"
  | JObj "(string \<times> jsval) list"

datatype error = TypeError

text \<open>The comparison \<^verbatim>\<open>a < b\<close> of two numbers; every comparison with \<open>NaN\<close> is false.\<close>

fun js_lt :: "jsnum \<Rightarrow> jsnum \<Rightarrow> bool" where
  "js_lt NaN _ = False"
| "js_lt _ NaN = False"
| "js_lt NegInf NegInf = False"
| "js_lt NegInf _ = True"
| "js_lt (Fin a) (Fin b) = (a < b)"
| "js_lt (Fin a) PosInf = True"
| "js_lt (Fin a) NegInf = False"
| "js_lt PosInf _ = False"

definition js_gt :: "jsnum \<Rightarrow> jsnum \<Rightarrow> bool" where
  "js_gt a b = js_lt b a"

text \<open>Truthiness, as tested by \<^verbatim>\<open>if (x)\<close>, \<^verbatim>\<open>x || y\<close> and \<^verbatim>\<open>x && y\<close>.\<close>

fun truthy :: "jsval \<Rightarrow> bool" where
  "truthy JUndefined = False"
| "truthy JNull = False"
| "truthy (JBool b) = b"
| "truthy (JNum n) = (n \<noteq> NaN \<and> n \<noteq> Fin 0)"
| "truthy (JStr s) = (s \<noteq> [])"
| "truthy (JArr _) = True"
| "truthy (JObj _) = True"

section \<open>Coercion of a string to a number\<close>

text \<open>
  \<^verbatim>\<open>Number(s)\<close> on a string without a dot, which is all \<^verbatim>\<open>compareVersions\<close> applies it
  to: surrounding white space is dropped; the empty string is 0; then a decimal literal
  (an optional sign, \<^verbatim>\<open>Infinity\<close> or digits with an optional exponent) or a binary, octal
  or hexadecimal literal; anything else is \<open>NaN\<close>. The value is exact: the rounding of
  JavaScript to the nearest double is not modelled, so the model and JavaScript agree
  wherever the value of a component is an integer below \<open>2^53\<close>.
\<close>

definition isWhite :: "char \<Rightarrow> bool" where
  "isWhite c = (c \<in> {CHR 0x09, CHR 0x0A, CHR 0x0B, CHR 0x0C, CHR 0x0D, CHR 0x20, CHR 0xA0})"

definition trim :: "string \<Rightarrow> string" where
  "trim s = rev (dropWhile isWhite (rev (dropWhile isWhite s)))"

definition digitOf :: "char \<Rightarrow> nat option" where
  "digitOf c =
     (let n = (of_char c :: nat) in
      if 48 \<le> n \<and> n \<le> 57 then Some (n - 48)
      else if 97 \<le> n \<and> n \<le> 102 then Some (n - 87)
      else if 65 \<le> n \<and> n \<le> 70 then Some (n - 55)
      else None)"

fun digitsFrom :: "nat \<Rightarrow> nat \<Rightarrow> string \<Rightarrow> nat option" where
  "digitsFrom base acc [] = Some acc"
| "digitsFrom base acc (c # cs) =
     (case digitOf c of
        None \<Rightarrow> None
      | Some d \<Rightarrow> if d < base then digitsFrom base (acc * base + d) cs else None)"

definition parseDigits :: "nat \<Rightarrow> string \<Rightarrow> nat option" where
  "parseDigits base s = (if s = [] then None else digitsFrom base 0 s)"

definition isExp :: "char \<Rightarrow> bool" where
  "isExp c = (c = CHR ''e'' \<or> c = CHR ''E'')"

definition parseExponent :: "string \<Rightarrow> int option" where
  "parseExponent s =
     (case s of
        [] \<Rightarrow> None
      | c # cs \<Rightarrow>
          if c = CHR ''-'' then map_option (\<lambda>n. - int n) (parseDigits 10 cs)
          else if c = CHR ''+'' then map_option int (parseDigits 10 cs)
          else map_option int (parseDigits 10 s))"

definition scale10 :: "nat \<Rightarrow> int \<Rightarrow> rat" where
  "scale10 m e = (if 0 \<le> e then of_nat m * 10 ^ nat e else of_nat m / 10 ^ nat (- e))"

definition parseUnsignedDecimal :: "string \<Rightarrow> jsnum" where
  "parseUnsignedDecimal s =
     (if s = ''Infinity'' then PosInf
      else
        let mant = takeWhile (\<lambda>c. \<not> isExp c) s;
            rest = dropWhile (\<lambda>c. \<not> isExp c) s
        in case parseDigits 10 mant of
             None \<Rightarrow> NaN
           | Some m \<Rightarrow>
               (if rest = [] then Fin (of_nat m)
                else case parseExponent (tl rest) of
                       None \<Rightarrow> NaN
                     | Some e \<Rightarrow> Fin (scale10 m e)))"

fun negate :: "jsnum \<Rightarrow> jsnum" where
  "negate NaN = NaN"
| "negate NegInf = PosInf"
| "negate (Fin r) = Fin (- r)"
| "negate PosInf = NegInf"

definition radixOf :: "char \<Rightarrow> nat option" where
  "radixOf c =
     (if c = CHR ''x'' \<or> c = CHR ''X'' then Some 16
      else if c = CHR ''o'' \<or> c = CHR ''O'' then Some 8
      else if c = CHR ''b'' \<or> c = CHR ''B'' then Some 2
      else None)"

definition parseNumeric :: "string \<Rightarrow> jsnum" where
  "parseNumeric s =
     (case s of
        [] \<Rightarrow> Fin 0
      | c # cs \<Rightarrow>
          if c = CHR ''-'' then negate (parseUnsignedDecimal cs)
          else if c = CHR ''+'' then parseUnsignedDecimal cs
          else if c = CHR ''0'' \<and> cs \<noteq> [] \<and> radixOf (hd cs) \<noteq> None
          then (case parseDigits (the (radixOf (hd cs))) (tl cs) of
                  None \<Rightarrow> NaN
                | Some n \<Rightarrow> Fin (of_nat n))
          else parseUnsignedDecimal s)"

definition Number :: "string \<Rightarrow> jsnum" where
  "Number s = parseNumeric (trim s)"

section \<open>Version comparison\<close>

text \<open>\<^verbatim>\<open>s.split('.')\<close>: the pieces between the dots, never an empty list.\<close>

fun split :: "char \<Rightarrow> string \<Rightarrow> string list" where
  "split sep [] = [[]]"
| "split sep (c # cs) =
     (if c = sep then [] # split sep cs
      else (c # hd (split sep cs)) # tl (split sep cs))"

text \<open>
  \<^verbatim>\<open>parts[i] || 0\<close>: an index past the end reads \<^verbatim>\<open>undefined\<close>, and \<open>NaN\<close> and 0 are
  falsy, so all three give 0.
\<close>

definition partOrZero :: "jsnum list \<Rightarrow> nat \<Rightarrow> jsnum" where
  "partOrZero parts i =
     (if i < length parts \<and> parts ! i \<noteq> NaN \<and> parts ! i \<noteq> Fin 0 then parts ! i else Fin 0)"

text \<open>The \<^verbatim>\<open>for\<close> loop of \<^verbatim>\<open>compareVersions\<close>, from index \<open>i\<close> on.\<close>

function compareFrom :: "jsnum list \<Rightarrow> jsnum list \<Rightarrow> nat \<Rightarrow> int" where
  "compareFrom parts1 parts2 i =
     (if i < max (length parts1) (length parts2) then
        (let p1 = partOrZero parts1 i; p2 = partOrZero parts2 i in
         if js_gt p1 p2 then 1
         else if js_lt p1 p2 then - 1
         else compareFrom parts1 parts2 (Suc i))
      else 0)"
  by pat_completeness auto
termination
  by (relation "measure (\<lambda>(parts1, parts2, i). max (length parts1) (length parts2) - i)") auto

declare compareFrom.simps [simp del]

text \<open>
  \<^verbatim>\<open>v.split\<close> exists on strings only: on any other value the call raises a
  \<^verbatim>\<open>TypeError\<close>.
\<close>

definition splitParts :: "jsval \<Rightarrow> error + jsnum list" where
  "splitParts v = (case v of JStr s \<Rightarrow> Inr (map Number (split (CHR ''.'') s)) | _ \<Rightarrow> Inl TypeError)"

definition compareVersions :: "jsval \<Rightarrow> jsval \<Rightarrow> error + int" where
  "compareVersions v1 v2 =
     (case splitParts v1 of
        Inl e \<Rightarrow> Inl e
      | Inr parts1 \<Rightarrow>
          (case splitParts v2 of
             Inl e \<Rightarrow> Inl e
           | Inr parts2 \<Rightarrow> Inr (compareFrom parts1 parts2 0)))"

section \<open>Property reads and enumeration\<close>

text \<open>
  \<^verbatim>\<open>x.field\<close> for the four fields the analyzer reads (\<^verbatim>\<open>packages\<close>,
  \<^verbatim>\<open>dependencies\<close>, \<^verbatim>\<open>name\<close>, \<^verbatim>\<open>version\<close>): reading from \<^verbatim>\<open>null\<close> or
  \<^verbatim>\<open>undefined\<close> raises a \<^verbatim>\<open>TypeError\<close>; an object gives its own property or
  \<^verbatim>\<open>undefined\<close>; numbers, booleans, strings and arrays have none of these fields.
\<close>

fun getProp :: "jsval \<Rightarrow> string \<Rightarrow> error + jsval" where
  "getProp JUndefined k = Inl TypeError"
| "getProp JNull k = Inl TypeError"
| "getProp (JObj kvs) k = Inr (case map_of kvs k of None \<Rightarrow> JUndefined | Some v \<Rightarrow> v)"
| "getProp _ k = Inr JUndefined"

text \<open>The decimal numeral of an array index, as \<^verbatim>\<open>Object.entries\<close> names it.\<close>

fun showNat :: "nat \<Rightarrow> string" where
  "showNat n =
     (if n < 10 then [char_of (48 + n)]
      else showNat (n div 10) @ [char_of (48 + n mod 10)])"

declare showNat.simps [simp del]

text \<open>
  \<^verbatim>\<open>Object.entries(x)\<close>: the own properties of an object, the indexed elements of an
  array, the indexed characters of a string, nothing for a number or a boolean, and a
  \<^verbatim>\<open>TypeError\<close> for \<^verbatim>\<open>null\<close> and \<^verbatim>\<open>undefined\<close>.
\<close>

fun objectEntries :: "jsval \<Rightarrow> error + (string \<times> jsval) list" where
  "objectEntries JUndefined = Inl TypeError"
| "objectEntries JNull = Inl TypeError"
| "objectEntries (JObj kvs) = Inr kvs"
| "objectEntries (JArr xs) = Inr (zip (map showNat [0..<length xs]) xs)"
| "objectEntries (JStr s) = Inr (zip (map showNat [0..<length s]) (map (\<lambda>c. JStr [c]) s))"
| "objectEntries (JNum n) = Inr []"
| "objectEntries (JBool b) = Inr []"

text \<open>\<^verbatim>\<open>xs.forEach(f)\<close> where \<open>f\<close> updates a state and may raise.\<close>

fun forEachE :: "('s \<Rightarrow> 'a \<Rightarrow> error + 's) \<Rightarrow> 'a list \<Rightarrow> 's \<Rightarrow> error + 's" where
  "forEachE f [] s = Inr s"
| "forEachE f (x # xs) s = (case f s x of Inl e \<Rightarrow> Inl e | Inr s' \<Rightarrow> forEachE f xs s')"

section \<open>Dependency extraction\<close>

record dep =
  name :: jsval
  version :: jsval
  path :: string

text \<open>\<^verbatim>\<open>path.replace(/^node_modules\//, '')\<close>\<close>

definition stripNodeModules :: "string \<Rightarrow> string" where
  "stripNodeModules p =
     (if take (length ''node_modules/'') p = ''node_modules/''
      then drop (length ''node_modules/'') p else p)"

text \<open>The callback of the loop over \<^verbatim>\<open>packageLock.packages\<close>, on the array it fills.\<close>

fun packagesStep :: "dep list \<Rightarrow> string \<times> jsval \<Rightarrow> error + dep list" where
  "packagesStep dependencies (p, pkg) =
     (if p = [] then Inr dependencies
      else (case getProp pkg ''name'' of
              Inl e \<Rightarrow> Inl e
            | Inr n \<Rightarrow>
                (let nm = (if truthy n then n else JStr (stripNodeModules p)) in
                 (case getProp pkg ''version'' of
                    Inl e \<Rightarrow> Inl e
                  | Inr v \<Rightarrow>
                      if truthy nm \<and> truthy v
                      then Inr (dependencies @ [\<lparr>name = nm, version = v, path = p\<rparr>])
                      else Inr dependencies))))"

declare packagesStep.simps [simp del]

text \<open>A size that decreases along the walk of the version 1 tree.\<close>

fun weight :: "jsval \<Rightarrow> nat" where
  "weight (JStr s) = Suc (length s)"
| "weight (JArr xs) = Suc (sum_list (map (\<lambda>x. Suc (weight x)) xs))"
| "weight (JObj kvs) = Suc (sum_list (map (\<lambda>kv. Suc (weight (snd kv))) kvs))"
| "weight _ = 0"

definition entriesWeight :: "(string \<times> jsval) list \<Rightarrow> nat" where
  "entriesWeight es =
     sum_list (map (\<lambda>kv. Suc (case snd kv of JObj kvs \<Rightarrow> weight (JObj kvs) | _ \<Rightarrow> 0)) es)"

text \<open>
  The weight of the entries of a value is at most the weight of the value, and a truthy
  field of an object weighs less than the object.
\<close>

lemma objWeight_le: "(case v of JObj kvs \<Rightarrow> weight (JObj kvs) | _ \<Rightarrow> 0) \<le> weight v"
  by (cases v) auto

lemma entriesWeight_zip_le:
  "length ks = length xs \<Longrightarrow> entriesWeight (zip ks xs) \<le> sum_list (map (\<lambda>x. Suc (weight x)) xs)"
proof (induction ks xs rule: list_induct2)
  case Nil
  then show ?case by (simp add: entriesWeight_def)
next
  case (Cons k ks x xs)
  have "(case x of JObj kvs \<Rightarrow> weight (JObj kvs) | _ \<Rightarrow> 0) \<le> weight x"
    by (rule objWeight_le)
  with Cons show ?case by (simp add: entriesWeight_def)
qed

lemma entriesWeight_le: "entriesWeight kvs \<le> sum_list (map (\<lambda>kv. Suc (weight (snd kv))) kvs)"
proof (induction kvs)
  case Nil
  then show ?case by (simp add: entriesWeight_def)
next
  case (Cons kv kvs)
  have "(case snd kv of JObj kvs \<Rightarrow> weight (JObj kvs) | _ \<Rightarrow> 0) \<le> weight (snd kv)"
    by (rule objWeight_le)
  with Cons show ?case by (simp add: entriesWeight_def)
qed

lemma entriesWeight_chars: "entriesWeight (zip ks (map (\<lambda>c. JStr [c]) s)) \<le> length s"
proof (induction s arbitrary: ks)
  case Nil
  then show ?case by (simp add: entriesWeight_def)
next
  case (Cons c s)
  show ?case
  proof (cases ks)
    case Nil
    then show ?thesis by (simp add: entriesWeight_def)
  next
    case (Cons k ks')
    with Cons.IH [of ks'] show ?thesis by (simp add: entriesWeight_def)
  qed
qed

lemma objectEntries_weight: "objectEntries d = Inr es \<Longrightarrow> entriesWeight es \<le> weight d"
proof (cases d)
  case (JArr xs)
  assume "objectEntries d = Inr es"
  with JArr have es: "es = zip (map showNat [0..<length xs]) xs" by simp
  have "entriesWeight (zip (map showNat [0..<length xs]) xs) \<le> sum_list (map (\<lambda>x. Suc (weight x)) xs)"
    by (rule entriesWeight_zip_le) simp
  with es JArr show ?thesis by simp
next
  case (JObj kvs)
  assume "objectEntries d = Inr es"
  with JObj entriesWeight_le [of kvs] show ?thesis by auto
next
  case (JStr s)
  assume "objectEntries d = Inr es"
  with JStr entriesWeight_chars [of "map showNat [0..<length s]" s] show ?thesis by auto
qed (auto simp: entriesWeight_def)

lemma map_of_weight: "map_of kvs k = Some d \<Longrightarrow> weight d < sum_list (map (\<lambda>kv. Suc (weight (snd kv))) kvs)"
  by (induction kvs) (auto split: if_splits)

lemma getProp_weight:
  "getProp info k = Inr d \<Longrightarrow> truthy d \<Longrightarrow>
   weight d < (case info of JObj kvs \<Rightarrow> weight (JObj kvs) | _ \<Rightarrow> 0)"
  by (cases info) (auto split: option.splits dest: map_of_weight)

text \<open>
  \<^verbatim>\<open>extractDependenciesRecursive(deps, result, prefix)\<close> with the array \<open>result\<close>
  it appends to passed along and returned; \<open>recursiveEntries\<close> is its loop over
  \<^verbatim>\<open>Object.entries(deps)\<close>.
\<close>

function extractDependenciesRecursive :: "jsval \<Rightarrow> dep list \<Rightarrow> string \<Rightarrow> error + dep list"
  and recursiveEntries :: "(string \<times> jsval) list \<Rightarrow> dep list \<Rightarrow> string \<Rightarrow> error + dep list"
where
  "extractDependenciesRecursive deps result prefix =
     (case objectEntries deps of
        Inl e \<Rightarrow> Inl e
      | Inr es \<Rightarrow> recursiveEntries es result prefix)"
| "recursiveEntries [] result prefix = Inr result"
| "recursiveEntries ((nm, info) # rest) result prefix =
     (case getProp info ''version'' of
        Inl e \<Rightarrow> Inl e
      | Inr v \<Rightarrow>
          (let result1 = result @ [\<lparr>name = JStr nm, version = v, path = prefix @ nm\<rparr>] in
           case getProp info ''dependencies'' of
             Inl e \<Rightarrow> Inl e
           | Inr d \<Rightarrow>
               if truthy d then
                 (case extractDependenciesRecursive d result1 (prefix @ nm @ '' > '') of
                    Inl e \<Rightarrow> Inl e
                  | Inr result2 \<Rightarrow> recursiveEntries rest result2 prefix)
               else recursiveEntries rest result1 prefix))"
  by pat_completeness auto
termination
proof (relation "measure (\<lambda>x. case x of
          Inl (deps, result, prefix) \<Rightarrow> Suc (weight deps)
        | Inr (es, result, prefix) \<Rightarrow> entriesWeight es)", goal_cases)
  case 1
  show ?case by simp
next
  case (2 deps result prefix es)
  then show ?case using objectEntries_weight [of deps es] by simp
next
  case (3 nm info rest result prefix v result1 d)
  then show ?case using getProp_weight [of info "''dependencies''" d]
    by (simp add: entriesWeight_def)
next
  case (4 nm info rest result prefix v result1 d result2)
  then show ?case by (simp add: entriesWeight_def)
next
  case (5 nm info rest result prefix v result1 d)
  then show ?case by (simp add: entriesWeight_def)
qed

declare extractDependenciesRecursive.simps [simp del]

text \<open>\<^verbatim>\<open>extractDependencies(packageLock)\<close>\<close>

definition extractDependencies :: "jsval \<Rightarrow> error + dep list" where
  "extractDependencies packageLock =
     (case getProp packageLock ''packages'' of
        Inl e \<Rightarrow> Inl e
      | Inr pkgs \<Rightarrow>
          (case (if truthy pkgs
                 then (case objectEntries pkgs of
                         Inl e \<Rightarrow> Inl e
                       | Inr es \<Rightarrow> forEachE packagesStep es [])
                 else Inr []) of
             Inl e \<Rightarrow> Inl e
           | Inr dependencies \<Rightarrow>
               (case getProp packageLock ''dependencies'' of
                  Inl e \<Rightarrow> Inl e
                | Inr deps \<Rightarrow>
                    if truthy deps then extractDependenciesRecursive deps dependencies []
                    else Inr dependencies)))"

section \<open>Classification\<close>

text \<open>
  The reference data, \<^verbatim>\<open>compromisedPackagesData\<close>, has the shape its generator writes
  and its tests assert: every entry has a string \<^verbatim>\<open>name\<close> and an array of strings
  \<^verbatim>\<open>compromisedVersions\<close>.
\<close>

record entry =
  name :: string
  compromisedVersions :: "string list"

record dataset =
  attackName :: string
  lastUpdate :: string
  compromisedPackages :: "entry list"

datatype severity = Critical | High | Warning

text \<open>
  The object \<^verbatim>\<open>checkPackage\<close> returns, without its \<^verbatim>\<open>description\<close> (a fixed display
  text for each severity).
\<close>

record threat =
  severity :: severity
  compromisedVersions :: "string list"
  installedVersion :: jsval
  exactMatch :: bool

text \<open>
  \<^verbatim>\<open>checkPackage(packageName, version)\<close>, the data passed as an argument; \<open>None\<close> is
  \<^verbatim>\<open>null\<close>. \<^verbatim>\<open>===\<close> and \<^verbatim>\<open>includes\<close> compare a string of the data with any value:
  they are equal when the value is that string. \<open>isHigher\<close> is the callback of
  \<^verbatim>\<open>some\<close>, whose \<^verbatim>\<open>catch\<close> turns an error of the comparison into \<^verbatim>\<open>false\<close>.
\<close>

definition isHigher :: "jsval \<Rightarrow> string \<Rightarrow> bool" where
  "isHigher v compVer =
     (case compareVersions v (JStr compVer) of Inl e \<Rightarrow> False | Inr r \<Rightarrow> r > 0)"

definition checkPackage :: "dataset \<Rightarrow> jsval \<Rightarrow> jsval \<Rightarrow> threat option" where
  "checkPackage compromisedPackagesData packageName v =
     (case find (\<lambda>pkg. JStr (entry.name pkg) = packageName)
             (compromisedPackages compromisedPackagesData) of
        None \<Rightarrow> None
      | Some compromisedPkg \<Rightarrow>
          if v \<in> set (map JStr (entry.compromisedVersions compromisedPkg)) then
            Some \<lparr>severity = Critical,
                  compromisedVersions = entry.compromisedVersions compromisedPkg,
                  installedVersion = v, exactMatch = True\<rparr>
          else if list_ex (isHigher v) (entry.compromisedVersions compromisedPkg) then
            Some \<lparr>severity = High,
                  compromisedVersions = entry.compromisedVersions compromisedPkg,
                  installedVersion = v, exactMatch = False\<rparr>
          else
            Some \<lparr>severity = Warning,
                  compromisedVersions = entry.compromisedVersions compromisedPkg,
                  installedVersion = v, exactMatch = False\<rparr>)"

section \<open>Scan\<close>

text \<open>An element of \<^verbatim>\<open>results.threats\<close>: the dependency's fields and the threat.\<close>

record finding = dep +
  threat :: threat

record results =
  safe :: nat
  warnings :: nat
  threats :: "finding list"
  allPackages :: "dep list"

text \<open>The callback of \<^verbatim>\<open>dependencies.forEach\<close> in \<^verbatim>\<open>analyzePackageLock\<close>.\<close>

definition analyzeStep :: "dataset \<Rightarrow> results \<Rightarrow> dep \<Rightarrow> results" where
  "analyzeStep compromisedPackagesData res d =
     (let res1 =
        (case checkPackage compromisedPackagesData (dep.name d) (version d) of
           Some t \<Rightarrow>
             res\<lparr>threats := threats res @
                   [\<lparr>dep.name = dep.name d, version = version d, path = path d, threat = t\<rparr>]\<rparr>
         | None \<Rightarrow> res\<lparr>safe := safe res + 1\<rparr>)
      in res1\<lparr>allPackages := allPackages res1 @ [d]\<rparr>)"

definition analyzeDependencies :: "dataset \<Rightarrow> dep list \<Rightarrow> results" where
  "analyzeDependencies compromisedPackagesData dependencies =
     foldl (analyzeStep compromisedPackagesData)
       \<lparr>safe = 0, warnings = 0, threats = [], allPackages = []\<rparr> dependencies"

text \<open>
  \<^verbatim>\<open>analyzePackageLock(packageLock)\<close>: \<open>None\<close> when the data is not loaded (the function
  alerts and returns), otherwise the results it hands to \<^verbatim>\<open>displayResults\<close>; an error
  of the extraction propagates to the caller.
\<close>

definition analyzePackageLock :: "dataset option \<Rightarrow> jsval \<Rightarrow> error + results option" where
  "analyzePackageLock compromisedPackagesData packageLock =
     (case compromisedPackagesData of
        None \<Rightarrow> Inr None
      | Some d \<Rightarrow>
          (case extractDependencies packageLock of
             Inl e \<Rightarrow> Inl e
           | Inr dependencies \<Rightarrow> Inr (Some (analyzeDependencies d dependencies))))"

section \<open>Specification-side functions and sample data\<close>

text \<open>\<^verbatim>\<open>xs.join(sep)\<close>, used to state what the paths and the version strings are.\<close>

fun joinWith :: "string \<Rightarrow> string list \<Rightarrow> string" where
  "joinWith sep [] = []"
| "joinWith sep [x] = x"
| "joinWith sep (x # y # ys) = x @ sep @ joinWith sep (y # ys)"

text \<open>A small data set for evaluating the classifier at concrete inputs.\<close>

definition sampleData :: dataset where
  "sampleData =
     \<lparr>attackName = ''Shai Hulud 2.0'', lastUpdate = ''2025-11-24'',
      compromisedPackages = [\<lparr>entry.name = ''X'', compromisedVersions = [''1.0.0'', ''3.0.0'']\<rparr>]\<rparr>"

text \<open>The value of a field of a value, \<^verbatim>\<open>undefined\<close> when there is none.\<close>

definition field :: "jsval \<Rightarrow> string \<Rightarrow> jsval" where
  "field obj k =
     (case obj of
        JObj kvs \<Rightarrow> (case map_of kvs k of None \<Rightarrow> JUndefined | Some v \<Rightarrow> v)
      | _ \<Rightarrow> JUndefined)"

definition hasField :: "jsval \<Rightarrow> string \<Rightarrow> bool" where
  "hasField obj k = (case obj of JObj kvs \<Rightarrow> k \<in> fst ` set kvs | _ \<Rightarrow> False)"

text \<open>A string without a given leading segment, when it starts with that segment.\<close>

fun stripPrefix :: "string \<Rightarrow> string \<Rightarrow> string option" where
  "stripPrefix [] s = Some s"
| "stripPrefix (c # cs) [] = None"
| "stripPrefix (c # cs) (d # ds) = (if c = d then stripPrefix cs ds else None)"

text \<open>
  The flat-map strategy in the words of the specification, a field being present when
  its value is truthy: the entry with the empty key is skipped; the name of any other
  entry is its \<^verbatim>\<open>name\<close> field when present, else its key without one leading
  \<^verbatim>\<open>node_modules/\<close>; the entry is kept when name and version are present; the key is
  the path.
\<close>

definition flatName :: "string \<Rightarrow> jsval \<Rightarrow> jsval" where
  "flatName p pkg =
     (if truthy (field pkg ''name'') then field pkg ''name''
      else JStr (case stripPrefix ''node_modules/'' p of Some rest \<Rightarrow> rest | None \<Rightarrow> p))"

definition flatDeps :: "(string \<times> jsval) list \<Rightarrow> dep list" where
  "flatDeps es =
     [\<lparr>dep.name = flatName p pkg, version = field pkg ''version'', path = p\<rparr>.
        (p, pkg) \<leftarrow> es, p \<noteq> [], truthy (flatName p pkg), truthy (field pkg ''version'')]"

text \<open>
  The recursive-tree strategy in the words of the specification: the nodes of the tree in
  depth-first order, parents before children, each with the names of its ancestors and
  its own key. The children of a node are the entries of its \<^verbatim>\<open>dependencies\<close> field
  when that field is present.
\<close>

definition children :: "jsval \<Rightarrow> (string \<times> jsval) list" where
  "children node =
     (if truthy (field node ''dependencies'')
      then (case objectEntries (field node ''dependencies'') of Inr es \<Rightarrow> es | Inl e \<Rightarrow> [])
      else [])"

lemma children_weight: "entriesWeight (children node) < entriesWeight ((k, node) # rest)"
proof (cases "truthy (field node ''dependencies'')")
  case False
  then show ?thesis by (simp add: children_def entriesWeight_def)
next
  case True
  then obtain kvs where node: "node = JObj kvs"
    by (cases node) (auto simp: field_def)
  then have rd: "getProp node ''dependencies'' = Inr (field node ''dependencies'')"
    by (simp add: field_def)
  show ?thesis
  proof (cases "objectEntries (field node ''dependencies'')")
    case (Inl e)
    then show ?thesis by (simp add: children_def entriesWeight_def)
  next
    case (Inr es)
    then have "entriesWeight es \<le> weight (field node ''dependencies'')"
      by (rule objectEntries_weight)
    also have "\<dots> < (case node of JObj kvs \<Rightarrow> weight (JObj kvs) | _ \<Rightarrow> 0)"
      using rd True by (rule getProp_weight)
    finally show ?thesis using Inr True by (simp add: children_def entriesWeight_def)
  qed
qed

function walkNodes ::
  "string list \<Rightarrow> (string \<times> jsval) list \<Rightarrow> (string list \<times> string \<times> jsval) list" where
  "walkNodes ancestors [] = []"
| "walkNodes ancestors ((k, node) # rest) =
     (ancestors, k, node) # walkNodes (ancestors @ [k]) (children node) @ walkNodes ancestors rest"
  by pat_completeness auto
termination
  by (relation "measure (\<lambda>(ancestors, es). entriesWeight es)")
     (simp_all add: children_weight, simp add: entriesWeight_def)

definition nodeDep :: "string list \<times> string \<times> jsval \<Rightarrow> dep" where
  "nodeDep n =
     (case n of (ancestors, k, node) \<Rightarrow>
        \<lparr>dep.name = JStr k, version = field node ''version'',
         path = joinWith '' > '' (ancestors @ [k])\<rparr>)"

section \<open>Properties of the version comparison\<close>

lemma js_lt_irrefl: "\<not> js_lt a a"
  by (cases a) auto

lemma js_lt_asym: "js_lt a b \<Longrightarrow> \<not> js_lt b a"
  by (cases a; cases b) auto

lemma compareFrom_range: "compareFrom ps qs i \<in> {- 1, 0, 1}"
proof (induction ps qs i rule: compareFrom.induct)
  case (1 parts1 parts2 i)
  then show ?case
    by (subst compareFrom.simps) (auto simp: Let_def)
qed

lemma compareFrom_antisym: "compareFrom ps qs i = - compareFrom qs ps i"
proof (induction ps qs i rule: compareFrom.induct)
  case (1 parts1 parts2 i)
  show ?case
  proof (cases "i < max (length parts1) (length parts2)")
    case False
    then show ?thesis
      by (subst compareFrom.simps, subst (2) compareFrom.simps) (simp add: max.commute)
  next
    case True
    let ?p1 = "partOrZero parts1 i" and ?p2 = "partOrZero parts2 i"
    consider (gt) "js_lt ?p2 ?p1" | (lt) "js_lt ?p1 ?p2" "\<not> js_lt ?p2 ?p1"
      | (eq) "\<not> js_lt ?p1 ?p2" "\<not> js_lt ?p2 ?p1"
      by blast
    then show ?thesis
    proof cases
      case gt
      then have "\<not> js_lt ?p1 ?p2" by (rule js_lt_asym)
      with gt True show ?thesis
        by (subst compareFrom.simps, subst (2) compareFrom.simps)
           (simp add: Let_def js_gt_def max.commute)
    next
      case lt
      with True show ?thesis
        by (subst compareFrom.simps, subst (2) compareFrom.simps)
           (simp add: Let_def js_gt_def max.commute)
    next
      case eq
      with True have "compareFrom parts1 parts2 (Suc i) = - compareFrom parts2 parts1 (Suc i)"
        using "1.IH" by (simp add: js_gt_def)
      with eq True show ?thesis
        by (subst compareFrom.simps, subst (2) compareFrom.simps)
           (simp add: Let_def js_gt_def max.commute)
    qed
  qed
qed

lemma compareFrom_all_equal:
  "(\<And>j. i \<le> j \<Longrightarrow> partOrZero ps j = partOrZero qs j) \<Longrightarrow> compareFrom ps qs i = 0"
proof (induction ps qs i rule: compareFrom.induct)
  case (1 parts1 parts2 i)
  have here: "partOrZero parts1 i = partOrZero parts2 i" using "1.prems" by simp
  show ?case
  proof (cases "i < max (length parts1) (length parts2)")
    case False
    then show ?thesis by (subst compareFrom.simps) simp
  next
    case True
    have "compareFrom parts1 parts2 (Suc i) = 0"
      using True here "1.prems" by (intro "1.IH") (auto simp: js_gt_def js_lt_irrefl)
    with True here show ?thesis
      by (subst compareFrom.simps) (simp add: Let_def js_gt_def js_lt_irrefl)
  qed
qed

lemma compareFrom_refl: "compareFrom ps ps i = 0"
  by (rule compareFrom_all_equal) simp

lemma partOrZero_past: "length ps \<le> j \<Longrightarrow> partOrZero ps j = Fin 0"
  by (simp add: partOrZero_def)

lemma compareFrom_cong_left:
  "(\<And>j. partOrZero ps j = partOrZero ps' j) \<Longrightarrow> compareFrom ps qs i = compareFrom ps' qs i"
proof (induction ps qs i rule: compareFrom.induct)
  case (1 parts1 parts2 i)
  let ?p1 = "partOrZero parts1 i" and ?p2 = "partOrZero parts2 i"
  have same: "partOrZero ps' i = ?p1" using "1.prems" by simp
  show ?case
  proof (cases "i < max (length parts1) (length parts2)")
    case False
    have "partOrZero ps' j = partOrZero parts2 j" if "i \<le> j" for j
      using that False "1.prems" [of j] by (simp add: partOrZero_past)
    then have "compareFrom ps' parts2 i = 0" by (rule compareFrom_all_equal)
    with False show ?thesis by (subst compareFrom.simps) simp
  next
    case True
    show ?thesis
    proof (cases "js_gt ?p1 ?p2 \<or> js_lt ?p1 ?p2")
      case decided: True
      then have "?p1 \<noteq> ?p2" by (auto simp: js_gt_def js_lt_irrefl)
      have "i < max (length ps') (length parts2)"
      proof (rule ccontr)
        assume "\<not> i < max (length ps') (length parts2)"
        then have "partOrZero ps' i = Fin 0" "?p2 = Fin 0"
          by (simp_all add: partOrZero_past)
        with same \<open>?p1 \<noteq> ?p2\<close> show False by simp
      qed
      with decided True same show ?thesis
        by (subst compareFrom.simps, subst (2) compareFrom.simps) (auto simp: Let_def)
    next
      case undecided: False
      with True have IH: "compareFrom parts1 parts2 (Suc i) = compareFrom ps' parts2 (Suc i)"
        using "1.IH" "1.prems" by simp
      show ?thesis
      proof (cases "i < max (length ps') (length parts2)")
        case True
        with undecided \<open>i < max (length parts1) (length parts2)\<close> same IH show ?thesis
          by (subst compareFrom.simps, subst (2) compareFrom.simps) (auto simp: Let_def)
      next
        case False
        then have "compareFrom ps' parts2 (Suc i) = 0" "compareFrom ps' parts2 i = 0"
          by (subst compareFrom.simps, simp)+
        with undecided True IH show ?thesis
          by (subst compareFrom.simps) (auto simp: Let_def)
      qed
    qed
  qed
qed

lemma compareFrom_cong_right:
  assumes "\<And>j. partOrZero qs j = partOrZero qs' j"
  shows "compareFrom ps qs i = compareFrom ps qs' i"
proof -
  have "compareFrom ps qs i = - compareFrom qs ps i" by (rule compareFrom_antisym)
  also have "compareFrom qs ps i = compareFrom qs' ps i"
    using assms by (rule compareFrom_cong_left)
  also have "- compareFrom qs' ps i = compareFrom ps qs' i"
    by (simp add: compareFrom_antisym [of ps qs'])
  finally show ?thesis .
qed

lemma split_nonempty: "split sep s \<noteq> []"
  by (induction s) auto

lemma split_append: "split sep (a @ sep # b) = split sep a @ split sep b"
proof (induction a)
  case Nil
  then show ?case by simp
next
  case (Cons x a)
  have "split sep a \<noteq> []" by (rule split_nonempty)
  then obtain h t where ht: "split sep a = h # t" by (cases "split sep a") auto
  with Cons show ?case by simp
qed

lemma split_no_sep: "sep \<notin> set c \<Longrightarrow> split sep c = [c]"
  by (induction c) auto

lemma split_joinWith:
  "cs \<noteq> [] \<Longrightarrow> split sep (joinWith [sep] cs) = concat (map (split sep) cs)"
proof (induction cs)
  case Nil
  then show ?case by simp
next
  case (Cons x xs)
  show ?case
  proof (cases xs)
    case Nil
    then show ?thesis by simp
  next
    case (Cons y ys)
    with Cons.IH show ?thesis by (simp add: split_append)
  qed
qed


lemma compareVersions_strings:
  "compareVersions (JStr a) (JStr b) =
     Inr (compareFrom (map Number (split (CHR ''.'') a)) (map Number (split (CHR ''.'') b)) 0)"
  by (simp add: compareVersions_def splitParts_def)

lemma Number_zero: "Number ''0'' = Fin 0"
  by (simp add: Number_def trim_def isWhite_def parseNumeric_def parseUnsignedDecimal_def
      parseDigits_def digitOf_def isExp_def radixOf_def)

lemma partOrZero_NaN_component:
  "Number c = NaN \<Longrightarrow>
   partOrZero (map Number (us @ c # vs)) j = partOrZero (map Number (us @ ''0'' # vs)) j"
  by (auto simp: partOrZero_def nth_append Number_zero nth_Cons split: nat.splits)

lemma partOrZero_append_zero: "partOrZero (ps @ [Fin 0]) j = partOrZero ps j"
  by (auto simp: partOrZero_def nth_append)

lemma split_component:
  "CHR ''.'' \<notin> set c \<Longrightarrow>
   split (CHR ''.'') (joinWith ''.'' (xs @ c # ys)) =
     concat (map (split (CHR ''.'')) xs) @ c # concat (map (split (CHR ''.'')) ys)"
  by (simp add: split_joinWith split_no_sep)

lemma split_trailing_zero: "split (CHR ''.'') (a @ ''.0'') = split (CHR ''.'') a @ [''0'']"
  using split_append [of "CHR ''.''" a "''0''"] by simp

text \<open>
  Claim C8. For every version string \<open>a\<close>, \<^verbatim>\<open>compareVersions(a, a)\<close> is 0, and for all
  version strings \<open>a\<close> and \<open>b\<close>, \<^verbatim>\<open>compareVersions(a, b)\<close> is the negation of
  \<^verbatim>\<open>compareVersions(b, a)\<close>.
\<close>

theorem compareVersions_reflexive_antisymmetric:
  "compareVersions (JStr a) (JStr a) = Inr 0 \<and>
   (\<exists>r. compareVersions (JStr b) (JStr a) = Inr r \<and> compareVersions (JStr a) (JStr b) = Inr (- r))"
  using compareFrom_antisym [of "map Number (split (CHR ''.'') a)" "map Number (split (CHR ''.'') b)" 0]
  by (simp add: compareVersions_strings compareFrom_refl)

text \<open>
  What \<^verbatim>\<open>Number\<close> can read is numeric and keeps its value, also in exponent or
  hexadecimal notation; only a component it cannot read becomes 0.
\<close>

lemma compareVersions_notations:
  "compareVersions (JStr ''1.1e1'') (JStr ''1.9'') = Inr 1 \<and>
   compareVersions (JStr ''1.0x10'') (JStr ''1.15'') = Inr 1 \<and>
   compareVersions (JStr ''1.beta'') (JStr ''1.0'') = Inr 0"
  by code_simp

text \<open>
  Claim C5. On every pair of version strings \<^verbatim>\<open>compareVersions\<close> returns, and returns
  -1, 0 or 1; a non-numeric component, one that \<^verbatim>\<open>Number\<close> cannot coerce (its result is
  \<open>NaN\<close>, as for letters), counts as 0: putting \<^verbatim>\<open>0\<close> in its place, in either operand, does not change
  the result; a missing trailing component counts as 0: appending \<^verbatim>\<open>.0\<close> to either
  operand does not change the result; and \<^verbatim>\<open>compareVersions("1.2", "1.2.0")\<close> is 0.
\<close>

theorem compareVersions_never_fails:
  "(\<exists>r. compareVersions (JStr a) (JStr b) = Inr r \<and> (r = - 1 \<or> r = 0 \<or> r = 1)) \<and>
   (Number c = NaN \<and> CHR ''.'' \<notin> set c \<longrightarrow>
      compareVersions (JStr (joinWith ''.'' (xs @ c # ys))) (JStr b) =
        compareVersions (JStr (joinWith ''.'' (xs @ ''0'' # ys))) (JStr b) \<and>
      compareVersions (JStr a) (JStr (joinWith ''.'' (xs @ c # ys))) =
        compareVersions (JStr a) (JStr (joinWith ''.'' (xs @ ''0'' # ys)))) \<and>
   compareVersions (JStr (a @ ''.0'')) (JStr b) = compareVersions (JStr a) (JStr b) \<and>
   compareVersions (JStr a) (JStr (b @ ''.0'')) = compareVersions (JStr a) (JStr b) \<and>
   compareVersions (JStr ''1.2'') (JStr ''1.2.0'') = Inr 0"
proof (intro conjI impI)
  show "\<exists>r. compareVersions (JStr a) (JStr b) = Inr r \<and> (r = - 1 \<or> r = 0 \<or> r = 1)"
    using compareFrom_range [of "map Number (split (CHR ''.'') a)" "map Number (split (CHR ''.'') b)" 0]
    by (simp add: compareVersions_strings)
next
  assume c: "Number c = NaN \<and> CHR ''.'' \<notin> set c"
  let ?us = "concat (map (split (CHR ''.'')) xs)" and ?vs = "concat (map (split (CHR ''.'')) ys)"
  have zero: "CHR ''.'' \<notin> set ''0''" by simp
  have parts: "partOrZero (map Number (?us @ c # ?vs)) j = partOrZero (map Number (?us @ ''0'' # ?vs)) j"
    for j using c by (intro partOrZero_NaN_component) simp
  show "compareVersions (JStr (joinWith ''.'' (xs @ c # ys))) (JStr b) =
        compareVersions (JStr (joinWith ''.'' (xs @ ''0'' # ys))) (JStr b)"
    unfolding compareVersions_strings using c
    by (simp only: split_component zero not_False_eq_True compareFrom_cong_left [OF parts])
  show "compareVersions (JStr a) (JStr (joinWith ''.'' (xs @ c # ys))) =
        compareVersions (JStr a) (JStr (joinWith ''.'' (xs @ ''0'' # ys)))"
    unfolding compareVersions_strings using c
    by (simp only: split_component zero not_False_eq_True compareFrom_cong_right [OF parts])
next
  have "compareFrom (map Number (split (CHR ''.'') a) @ [Fin 0]) qs 0 =
        compareFrom (map Number (split (CHR ''.'') a)) qs 0" for qs
    by (rule compareFrom_cong_left) (rule partOrZero_append_zero)
  then show "compareVersions (JStr (a @ ''.0'')) (JStr b) = compareVersions (JStr a) (JStr b)"
    by (simp add: compareVersions_strings split_trailing_zero Number_zero)
next
  have "compareFrom ps (map Number (split (CHR ''.'') b) @ [Fin 0]) 0 =
        compareFrom ps (map Number (split (CHR ''.'') b)) 0" for ps
    by (rule compareFrom_cong_right) (rule partOrZero_append_zero)
  then show "compareVersions (JStr a) (JStr (b @ ''.0'')) = compareVersions (JStr a) (JStr b)"
    by (simp add: compareVersions_strings split_trailing_zero Number_zero)
next
  show "compareVersions (JStr ''1.2'') (JStr ''1.2.0'') = Inr 0"
    by code_simp
qed

theorem compareVersions_never_fails_witness:
  "Number ''beta'' = NaN \<and> CHR ''.'' \<notin> set ''beta'' \<and>
   compareVersions (JStr ''1.beta.3'') (JStr ''1.0.4'') =
     compareVersions (JStr ''1.0.3'') (JStr ''1.0.4'') \<and>
   compareVersions (JStr ''1.0.4'') (JStr ''1.beta.3'') =
     compareVersions (JStr ''1.0.4'') (JStr ''1.0.3'')"
  using compareVersions_never_fails [of "''1.0.4''" "''1.0.4''" "''beta''" "[''1'']" "[''3'']"]
  by (simp add: Number_def trim_def isWhite_def parseNumeric_def parseUnsignedDecimal_def
      parseDigits_def digitOf_def isExp_def radixOf_def)

section \<open>Properties of the classifier\<close>

lemma find_first:
  "xs = pre @ e # post \<Longrightarrow> \<forall>p\<in>set pre. \<not> P p \<Longrightarrow> P e \<Longrightarrow> find P xs = Some e"
  by (induction pre arbitrary: xs) auto

lemma find_entry:
  assumes "compromisedPackages data = pre @ e # post"
    and "\<forall>p\<in>set pre. entry.name p \<noteq> n" and "entry.name e = n"
  shows "find (\<lambda>pkg. JStr (entry.name pkg) = JStr n) (compromisedPackages data) = Some e"
  using assms by (intro find_first [where pre = pre and post = post]) auto

lemma isHigher_iff:
  "isHigher v c \<longleftrightarrow> (\<exists>r. compareVersions v (JStr c) = Inr r \<and> 0 < r)"
  by (auto simp: isHigher_def split: sum.splits)

lemma checkPackage_found:
  assumes "find (\<lambda>pkg. JStr (entry.name pkg) = nm) (compromisedPackages data) = Some e"
  shows "checkPackage data nm v =
     Some \<lparr>severity =
             (if v \<in> JStr ` set (entry.compromisedVersions e) then Critical
              else if \<exists>c\<in>set (entry.compromisedVersions e). isHigher v c then High
              else Warning),
           compromisedVersions = entry.compromisedVersions e,
           installedVersion = v,
           exactMatch = (v \<in> JStr ` set (entry.compromisedVersions e))\<rparr>"
  using assms by (simp add: checkPackage_def list_ex_iff)

lemma sample_21: "compareVersions (JStr ''2.0.0'') (JStr ''1.0.0'') = Inr 1"
  by code_simp

lemma sample_23: "compareVersions (JStr ''2.0.0'') (JStr ''3.0.0'') = Inr (- 1)"
  by code_simp

lemma sample_find:
  "find (\<lambda>pkg. JStr (entry.name pkg) = JStr ''X'') (compromisedPackages sampleData) =
     Some \<lparr>entry.name = ''X'', compromisedVersions = [''1.0.0'', ''3.0.0'']\<rparr>"
  by (simp add: sampleData_def)

text \<open>
  Claim C1. Let \<open>e\<close> be the entry of the data that \<^verbatim>\<open>checkPackage\<close> finds for the name
  \<open>n\<close> (the first one with that name). For a version string \<open>v\<close> that is not one of the
  compromised versions of \<open>e\<close>, the result has severity \<open>High\<close> when
  \<^verbatim>\<open>compareVersions(v, c) > 0\<close> for at least one compromised version \<open>c\<close>, and
  \<open>Warning\<close> otherwise, with \<open>exactMatch\<close> false in both cases. Severity and
  \<open>exactMatch\<close> stay the same when the compromised versions of \<open>e\<close> are listed in another
  order (or in any list with the same elements). The result has exactly one severity.
\<close>

theorem checkPackage_other_version:
  assumes "compromisedPackages data = pre @ e # post"
    and "\<forall>p\<in>set pre. entry.name p \<noteq> n"
    and "entry.name e = n"
  shows "(v \<notin> set (entry.compromisedVersions e) \<longrightarrow>
            checkPackage data (JStr n) (JStr v) =
              Some \<lparr>severity =
                      (if \<exists>c\<in>set (entry.compromisedVersions e).
                            \<exists>r. compareVersions (JStr v) (JStr c) = Inr r \<and> 0 < r
                       then High else Warning),
                    compromisedVersions = entry.compromisedVersions e,
                    installedVersion = JStr v,
                    exactMatch = False\<rparr>) \<and>
         (\<forall>cvs. set cvs = set (entry.compromisedVersions e) \<longrightarrow>
            map_option (\<lambda>t. (severity t, exactMatch t))
              (checkPackage
                 (data\<lparr>compromisedPackages := pre @ e\<lparr>entry.compromisedVersions := cvs\<rparr> # post\<rparr>)
                 (JStr n) (JStr v)) =
            map_option (\<lambda>t. (severity t, exactMatch t)) (checkPackage data (JStr n) (JStr v))) \<and>
         (\<exists>!s. map_option severity (checkPackage data (JStr n) (JStr v)) = Some s)"
proof -
  have found: "find (\<lambda>pkg. JStr (entry.name pkg) = JStr n) (compromisedPackages data) = Some e"
    using assms by (rule find_entry)
  note res = checkPackage_found [OF found]
  have other: "find (\<lambda>pkg. JStr (entry.name pkg) = JStr n)
        (compromisedPackages
           (data\<lparr>compromisedPackages := pre @ e\<lparr>entry.compromisedVersions := cvs\<rparr> # post\<rparr>)) =
        Some (e\<lparr>entry.compromisedVersions := cvs\<rparr>)" for cvs
    using assms(2,3) by (intro find_entry [where pre = pre and post = post]) auto
  note res' = checkPackage_found [OF other]
  show ?thesis
  proof (intro conjI allI impI)
    assume "v \<notin> set (entry.compromisedVersions e)"
    then have "JStr v \<notin> JStr ` set (entry.compromisedVersions e)" by auto
    then show "checkPackage data (JStr n) (JStr v) =
              Some \<lparr>severity =
                      (if \<exists>c\<in>set (entry.compromisedVersions e).
                            \<exists>r. compareVersions (JStr v) (JStr c) = Inr r \<and> 0 < r
                       then High else Warning),
                    compromisedVersions = entry.compromisedVersions e,
                    installedVersion = JStr v,
                    exactMatch = False\<rparr>"
      by (simp add: res isHigher_iff)
  next
    fix cvs assume "set cvs = set (entry.compromisedVersions e)"
    then show "map_option (\<lambda>t. (severity t, exactMatch t))
              (checkPackage
                 (data\<lparr>compromisedPackages := pre @ e\<lparr>entry.compromisedVersions := cvs\<rparr> # post\<rparr>)
                 (JStr n) (JStr v)) =
            map_option (\<lambda>t. (severity t, exactMatch t)) (checkPackage data (JStr n) (JStr v))"
      by (simp add: res res')
  next
    show "\<exists>!s. map_option severity (checkPackage data (JStr n) (JStr v)) = Some s"
      by (simp add: res)
  qed
qed

theorem checkPackage_other_version_witness:
  "checkPackage sampleData (JStr ''X'') (JStr ''2.0.0'') =
     Some \<lparr>severity = High, compromisedVersions = [''1.0.0'', ''3.0.0''],
           installedVersion = JStr ''2.0.0'', exactMatch = False\<rparr>"
proof -
  have h1: "compromisedPackages sampleData =
      [] @ \<lparr>entry.name = ''X'', compromisedVersions = [''1.0.0'', ''3.0.0'']\<rparr> # []"
    by (simp add: sampleData_def)
  have h2: "\<forall>p\<in>set []. entry.name p \<noteq> ''X''" by simp
  have h3: "entry.name \<lparr>entry.name = ''X'', compromisedVersions = [''1.0.0'', ''3.0.0'']\<rparr> = ''X''"
    by simp
  show ?thesis
    using checkPackage_other_version [OF h1 h2 h3, of "''2.0.0''"] by (simp add: sample_21)
qed

text \<open>
  Claim C2 says that \<open>High\<close> is returned only for a version above all compromised
  versions, and \<open>Warning\<close> for every version that is neither listed nor above all of them.
  With the compromised versions 1.0.0 and 3.0.0, the version 2.0.0 is below 3.0.0 and is
  classified \<open>High\<close>, not \<open>Warning\<close>: one lower compromised version is enough.
\<close>

theorem checkPackage_high_below_a_compromised_version:
  "checkPackage
     \<lparr>attackName = ''Shai Hulud 2.0'', lastUpdate = ''2025-11-24'',
      compromisedPackages = [\<lparr>entry.name = ''X'', compromisedVersions = [''1.0.0'', ''3.0.0'']\<rparr>]\<rparr>
     (JStr ''X'') (JStr ''2.0.0'') =
     Some \<lparr>severity = High, compromisedVersions = [''1.0.0'', ''3.0.0''],
           installedVersion = JStr ''2.0.0'', exactMatch = False\<rparr> \<and>
   compareVersions (JStr ''2.0.0'') (JStr ''3.0.0'') = Inr (- 1)"
  using sample_find by (simp add: checkPackage_found sampleData_def isHigher_iff sample_21 sample_23)

text \<open>
  Claim C2, amended. Let \<open>e\<close> be the entry found for the name \<open>n\<close>. The result has
  severity \<open>High\<close> exactly when the installed version is not one of the compromised
  versions of \<open>e\<close> and compares higher than at least one of them; it has severity
  \<open>Warning\<close> exactly when the installed version is not one of them and compares higher
  than none of them. In particular a version that is not listed and is above all of a
  non-empty list of compromised versions is classified \<open>High\<close>.
\<close>

theorem checkPackage_severity_cases:
  assumes "compromisedPackages data = pre @ e # post"
    and "\<forall>p\<in>set pre. entry.name p \<noteq> n"
    and "entry.name e = n"
  shows "(map_option severity (checkPackage data (JStr n) v) = Some High \<longleftrightarrow>
            v \<notin> JStr ` set (entry.compromisedVersions e) \<and>
            (\<exists>c\<in>set (entry.compromisedVersions e).
               \<exists>r. compareVersions v (JStr c) = Inr r \<and> 0 < r)) \<and>
         (map_option severity (checkPackage data (JStr n) v) = Some Warning \<longleftrightarrow>
            v \<notin> JStr ` set (entry.compromisedVersions e) \<and>
            (\<forall>c\<in>set (entry.compromisedVersions e).
               \<forall>r. compareVersions v (JStr c) = Inr r \<longrightarrow> r \<le> 0)) \<and>
         (entry.compromisedVersions e \<noteq> [] \<and>
          v \<notin> JStr ` set (entry.compromisedVersions e) \<and>
          (\<forall>c\<in>set (entry.compromisedVersions e).
             \<exists>r. compareVersions v (JStr c) = Inr r \<and> 0 < r) \<longrightarrow>
          map_option severity (checkPackage data (JStr n) v) = Some High)"
proof -
  have found: "find (\<lambda>pkg. JStr (entry.name pkg) = JStr n) (compromisedPackages data) = Some e"
    using assms by (rule find_entry)
  note res = checkPackage_found [OF found]
  have nonempty: "entry.compromisedVersions e \<noteq> [] \<Longrightarrow> \<exists>c. c \<in> set (entry.compromisedVersions e)"
    by (cases "entry.compromisedVersions e") auto
  show ?thesis
    using nonempty by (simp add: res isHigher_iff) (metis not_less)
qed

theorem checkPackage_severity_cases_witness:
  "map_option severity (checkPackage sampleData (JStr ''X'') (JStr ''2.0.0'')) = Some High \<and>
   map_option severity (checkPackage sampleData (JStr ''X'') (JStr ''0.0.1'')) = Some Warning"
proof -
  have h1: "compromisedPackages sampleData =
      [] @ \<lparr>entry.name = ''X'', compromisedVersions = [''1.0.0'', ''3.0.0'']\<rparr> # []"
    by (simp add: sampleData_def)
  have h2: "\<forall>p\<in>set []. entry.name p \<noteq> ''X''" by simp
  have h3: "entry.name \<lparr>entry.name = ''X'', compromisedVersions = [''1.0.0'', ''3.0.0'']\<rparr> = ''X''"
    by simp
  have c1: "compareVersions (JStr ''0.0.1'') (JStr ''1.0.0'') = Inr (- 1)" by code_simp
  have c2: "compareVersions (JStr ''0.0.1'') (JStr ''3.0.0'') = Inr (- 1)" by code_simp
  show ?thesis
    using checkPackage_severity_cases [OF h1 h2 h3, of "JStr ''2.0.0''"]
      checkPackage_severity_cases [OF h1 h2 h3, of "JStr ''0.0.1''"]
    by (simp add: sample_21 sample_23 c1 c2)
qed

text \<open>
  Claim C3. \<^verbatim>\<open>checkPackage\<close> returns \<^verbatim>\<open>null\<close> exactly when no entry of the data has
  the queried name; and when \<open>e\<close> is the entry found for the name \<open>n\<close> and the queried
  version is one of the compromised versions of \<open>e\<close>, the result has severity
  \<open>Critical\<close> and \<open>exactMatch\<close> true.
\<close>

theorem checkPackage_not_found_or_critical:
  "(checkPackage data nm v = None \<longleftrightarrow>
      (\<forall>e\<in>set (compromisedPackages data). JStr (entry.name e) \<noteq> nm)) \<and>
   (compromisedPackages data = pre @ e # post \<and> (\<forall>p\<in>set pre. entry.name p \<noteq> n) \<and>
    entry.name e = n \<and> c \<in> set (entry.compromisedVersions e) \<longrightarrow>
      checkPackage data (JStr n) (JStr c) =
        Some \<lparr>severity = Critical, compromisedVersions = entry.compromisedVersions e,
              installedVersion = JStr c, exactMatch = True\<rparr>)"
proof (intro conjI impI)
  show "checkPackage data nm v = None \<longleftrightarrow>
      (\<forall>e\<in>set (compromisedPackages data). JStr (entry.name e) \<noteq> nm)"
  proof (cases "find (\<lambda>pkg. JStr (entry.name pkg) = nm) (compromisedPackages data)")
    case None
    then have "checkPackage data nm v = None" by (simp add: checkPackage_def)
    moreover have "\<forall>e\<in>set (compromisedPackages data). JStr (entry.name e) \<noteq> nm"
      using None by (auto simp: find_None_iff)
    ultimately show ?thesis by simp
  next
    case (Some e)
    then have "e \<in> set (compromisedPackages data) \<and> JStr (entry.name e) = nm"
      by (auto simp: find_Some_iff)
    with Some show ?thesis by (auto simp: checkPackage_found)
  qed
next
  assume h: "compromisedPackages data = pre @ e # post \<and> (\<forall>p\<in>set pre. entry.name p \<noteq> n) \<and>
    entry.name e = n \<and> c \<in> set (entry.compromisedVersions e)"
  then have "find (\<lambda>pkg. JStr (entry.name pkg) = JStr n) (compromisedPackages data) = Some e"
    by (intro find_entry [where pre = pre and post = post]) auto
  with h show "checkPackage data (JStr n) (JStr c) =
        Some \<lparr>severity = Critical, compromisedVersions = entry.compromisedVersions e,
              installedVersion = JStr c, exactMatch = True\<rparr>"
    by (simp add: checkPackage_found)
qed

theorem checkPackage_not_found_or_critical_witness:
  "checkPackage sampleData (JStr ''Y'') (JStr ''1.0.0'') = None \<and>
   checkPackage sampleData (JStr ''X'') (JStr ''1.0.0'') =
     Some \<lparr>severity = Critical, compromisedVersions = [''1.0.0'', ''3.0.0''],
           installedVersion = JStr ''1.0.0'', exactMatch = True\<rparr>"
  using checkPackage_not_found_or_critical [of sampleData "JStr ''Y''" "JStr ''1.0.0''" "[]"
      "\<lparr>entry.name = ''X'', compromisedVersions = [''1.0.0'', ''3.0.0'']\<rparr>" "[]" "''X''" "''1.0.0''"]
  by (simp add: sampleData_def)

section \<open>Properties of the scan\<close>

lemma foldl_analyzeStep:
  "foldl (analyzeStep data) res ds =
     res\<lparr>safe := safe res + length (filter (\<lambda>d. checkPackage data (dep.name d) (version d) = None) ds),
         threats := threats res @
           List.map_filter
             (\<lambda>d. map_option
                (\<lambda>t. \<lparr>dep.name = dep.name d, version = version d, path = path d, threat = t\<rparr>)
                (checkPackage data (dep.name d) (version d))) ds,
         allPackages := allPackages res @ ds\<rparr>"
proof (induction ds arbitrary: res)
  case Nil
  then show ?case by (simp add: map_filter_simps)
next
  case (Cons d ds)
  show ?case
  proof (cases "checkPackage data (dep.name d) (version d)")
    case None
    then have "analyzeStep data res d =
        res\<lparr>safe := safe res + 1, allPackages := allPackages res @ [d]\<rparr>"
      by (simp add: analyzeStep_def)
    with None show ?thesis by (simp add: Cons.IH map_filter_simps)
  next
    case (Some t)
    then have "analyzeStep data res d =
        res\<lparr>threats := threats res @
              [\<lparr>dep.name = dep.name d, version = version d, path = path d, threat = t\<rparr>],
            allPackages := allPackages res @ [d]\<rparr>"
      by (simp add: analyzeStep_def)
    with Some show ?thesis by (simp add: Cons.IH map_filter_simps)
  qed
qed

lemma analyzeDependencies_eq:
  "analyzeDependencies data ds =
     \<lparr>safe = length (filter (\<lambda>d. checkPackage data (dep.name d) (version d) = None) ds),
      warnings = 0,
      threats =
        List.map_filter
          (\<lambda>d. map_option
             (\<lambda>t. \<lparr>dep.name = dep.name d, version = version d, path = path d, threat = t\<rparr>)
             (checkPackage data (dep.name d) (version d))) ds,
      allPackages = ds\<rparr>"
  by (simp add: analyzeDependencies_def foldl_analyzeStep)

lemma length_map_filter_option:
  "length (List.map_filter f xs) + length (filter (\<lambda>x. f x = None) xs) = length xs"
  by (induction xs) (auto simp: map_filter_simps split: option.splits)

text \<open>
  Claim C4. For every list of dependencies and every data set, the results of the scan
  satisfy \<open>safe + length threats = length allPackages\<close>, where \<open>allPackages\<close> is the
  input list: the safe count is the number of dependencies for which \<^verbatim>\<open>checkPackage\<close>
  returns \<^verbatim>\<open>null\<close>, and \<open>threats\<close> holds one finding for each of the others, in input
  order. The same equation holds for whatever \<^verbatim>\<open>analyzePackageLock\<close> hands to the
  display.
\<close>

theorem analyzeDependencies_counts:
  "safe (analyzeDependencies data ds) + length (threats (analyzeDependencies data ds)) =
     length (allPackages (analyzeDependencies data ds)) \<and>
   allPackages (analyzeDependencies data ds) = ds \<and>
   safe (analyzeDependencies data ds) =
     length (filter (\<lambda>d. checkPackage data (dep.name d) (version d) = None) ds) \<and>
   threats (analyzeDependencies data ds) =
     List.map_filter
       (\<lambda>d. map_option
          (\<lambda>t. \<lparr>dep.name = dep.name d, version = version d, path = path d, threat = t\<rparr>)
          (checkPackage data (dep.name d) (version d))) ds \<and>
   (\<forall>res. analyzePackageLock (Some data) packageLock = Inr (Some res) \<longrightarrow>
      safe res + length (threats res) = length (allPackages res))"
proof -
  let ?f = "\<lambda>d::dep. map_option
          (\<lambda>t. \<lparr>dep.name = dep.name d, version = version d, path = path d, threat = t\<rparr>)
          (checkPackage data (dep.name d) (version d))"
  have none: "(?f d = None) = (checkPackage data (dep.name d) (version d) = None)" for d :: dep
    by simp
  have count: "length (filter (\<lambda>d. checkPackage data (dep.name d) (version d) = None) xs) +
      length (List.map_filter ?f xs) = length xs" for xs :: "dep list"
    using length_map_filter_option [of ?f xs] by (simp only: none add.commute)
  show ?thesis
    by (auto simp: analyzeDependencies_eq count analyzePackageLock_def split: sum.splits)
qed

theorem analyzeDependencies_counts_witness:
  "\<exists>res. analyzePackageLock (Some sampleData)
           (JObj [(''dependencies'',
              JObj [(''X'', JObj [(''version'', JStr ''1.0.0'')]),
                    (''left-pad'', JObj [(''version'', JStr ''1.3.0'')])])]) = Inr (Some res) \<and>
         safe res + length (threats res) = length (allPackages res) \<and>
         safe res = 1 \<and> map (\<lambda>f. severity (threat f)) (threats res) = [Critical]"
proof -
  let ?lock = "JObj [(''dependencies'',
        JObj [(''X'', JObj [(''version'', JStr ''1.0.0'')]),
              (''left-pad'', JObj [(''version'', JStr ''1.3.0'')])])]"
  have run: "analyzePackageLock (Some sampleData) ?lock =
   Inr (Some
     \<lparr>safe = 1, warnings = 0,
      threats =
        [\<lparr>dep.name = JStr ''X'', version = JStr ''1.0.0'', path = ''X'',
          threat = \<lparr>severity = Critical, compromisedVersions = [''1.0.0'', ''3.0.0''],
                    installedVersion = JStr ''1.0.0'', exactMatch = True\<rparr>\<rparr>],
      allPackages =
        [\<lparr>dep.name = JStr ''X'', version = JStr ''1.0.0'', path = ''X''\<rparr>,
         \<lparr>dep.name = JStr ''left-pad'', version = JStr ''1.3.0'', path = ''left-pad''\<rparr>]\<rparr>)"
    by (simp add: analyzePackageLock_def extractDependencies_def extractDependenciesRecursive.simps
        analyzeDependencies_def analyzeStep_def checkPackage_def sampleData_def)
  from analyzeDependencies_counts [of sampleData "[]" ?lock] run
  show ?thesis by simp
qed

section \<open>Properties of the extraction\<close>

lemma getProp_field: "v \<noteq> JNull \<Longrightarrow> v \<noteq> JUndefined \<Longrightarrow> getProp v k = Inr (field v k)"
  by (cases v) (simp_all add: field_def)

lemma getProp_Inr_field: "getProp v k = Inr x \<Longrightarrow> x = field v k"
  by (cases v) (auto simp: field_def)

lemma getProp_Inr_defined: "getProp v k = Inr x \<Longrightarrow> v \<noteq> JNull \<and> v \<noteq> JUndefined"
  by (cases v) auto

lemma field_absent: "\<not> hasField v k \<Longrightarrow> field v k = JUndefined"
  by (cases v) (auto simp: field_def hasField_def split: option.splits dest: map_of_SomeD
      intro: rev_image_eqI)

lemma stripPrefix_take_drop:
  "stripPrefix pre s = (if take (length pre) s = pre then Some (drop (length pre) s) else None)"
  by (induction pre s rule: stripPrefix.induct) auto

lemma stripNodeModules_stripPrefix:
  "stripNodeModules p = (case stripPrefix ''node_modules/'' p of Some rest \<Rightarrow> rest | None \<Rightarrow> p)"
  by (simp only: stripPrefix_take_drop stripNodeModules_def split: if_splits) simp

lemma packagesStep_flat:
  assumes "p \<noteq> [] \<longrightarrow> pkg \<noteq> JNull \<and> pkg \<noteq> JUndefined"
  shows "packagesStep acc (p, pkg) = Inr (acc @ flatDeps [(p, pkg)])"
proof (cases "p = []")
  case True
  then show ?thesis by (simp add: packagesStep.simps flatDeps_def)
next
  case False
  with assms have "getProp pkg k = Inr (field pkg k)" for k
    by (simp add: getProp_field)
  with False show ?thesis
    by (simp add: packagesStep.simps flatDeps_def flatName_def stripNodeModules_stripPrefix Let_def)
qed

lemma flatDeps_Cons: "flatDeps (e # es) = flatDeps [e] @ flatDeps es"
  by (simp add: flatDeps_def)

lemma forEachE_packagesStep:
  "\<forall>(p, pkg)\<in>set es. p \<noteq> [] \<longrightarrow> pkg \<noteq> JNull \<and> pkg \<noteq> JUndefined \<Longrightarrow>
   forEachE packagesStep es acc = Inr (acc @ flatDeps es)"
proof (induction es arbitrary: acc)
  case Nil
  then show ?case by (simp add: flatDeps_def)
next
  case (Cons e es)
  obtain p pkg where e: "e = (p, pkg)" by (cases e)
  with Cons.prems have "p \<noteq> [] \<longrightarrow> pkg \<noteq> JNull \<and> pkg \<noteq> JUndefined" by simp
  then have step: "packagesStep acc (p, pkg) = Inr (acc @ flatDeps [(p, pkg)])"
    by (rule packagesStep_flat)
  from Cons.prems have "\<forall>(p, pkg)\<in>set es. p \<noteq> [] \<longrightarrow> pkg \<noteq> JNull \<and> pkg \<noteq> JUndefined"
    by simp
  then have "forEachE packagesStep es (acc @ flatDeps [(p, pkg)]) =
      Inr ((acc @ flatDeps [(p, pkg)]) @ flatDeps es)"
    by (rule Cons.IH)
  with step e show ?case by (simp add: flatDeps_Cons [of "(p, pkg)" es])
qed

text \<open>
  Claim C6. For a document whose \<^verbatim>\<open>packages\<close> field is a mapping of keys to package
  records (no record being \<^verbatim>\<open>null\<close>), the loop over the mapping yields \<open>flatDeps\<close>:
  the entry with the empty key is skipped, every other entry is named by its own
  \<^verbatim>\<open>name\<close> field when present and otherwise by its key without one leading
  \<^verbatim>\<open>node_modules/\<close>, it is kept only when name and version are present, and its key is
  recorded as the path. That list is what the extraction returns, followed by the
  result of the tree walk when the document also has \<^verbatim>\<open>dependencies\<close>. On the document
  with the keys \<^verbatim>\<open>""\<close> and \<^verbatim>\<open>node_modules/foo\<close> (version 1.0.0) the result is the one
  dependency \<^verbatim>\<open>foo\<close>, whatever the root entry is.
\<close>

theorem extractDependencies_flat_map:
  "(getProp packageLock ''packages'' = Inr (JObj es) \<and>
    (\<forall>(p, pkg)\<in>set es. p \<noteq> [] \<longrightarrow> pkg \<noteq> JNull \<and> pkg \<noteq> JUndefined) \<longrightarrow>
      forEachE packagesStep es [] = Inr (flatDeps es) \<and>
      extractDependencies packageLock =
        (if truthy (field packageLock ''dependencies'')
         then extractDependenciesRecursive (field packageLock ''dependencies'') (flatDeps es) []
         else Inr (flatDeps es))) \<and>
   extractDependencies
     (JObj [(''packages'',
        JObj [('''', rootPkg), (''node_modules/foo'', JObj [(''version'', JStr ''1.0.0'')])])]) =
     Inr [\<lparr>dep.name = JStr ''foo'', version = JStr ''1.0.0'', path = ''node_modules/foo''\<rparr>]"
proof (intro conjI impI)
  assume h: "getProp packageLock ''packages'' = Inr (JObj es) \<and>
    (\<forall>(p, pkg)\<in>set es. p \<noteq> [] \<longrightarrow> pkg \<noteq> JNull \<and> pkg \<noteq> JUndefined)"
  then have loop: "forEachE packagesStep es [] = Inr ([] @ flatDeps es)"
    by (intro forEachE_packagesStep) simp
  then show "forEachE packagesStep es [] = Inr (flatDeps es)" by simp
  from h have "packageLock \<noteq> JNull \<and> packageLock \<noteq> JUndefined"
    by (auto dest: getProp_Inr_defined)
  then have "getProp packageLock ''dependencies'' = Inr (field packageLock ''dependencies'')"
    by (simp add: getProp_field)
  with h loop show "extractDependencies packageLock =
        (if truthy (field packageLock ''dependencies'')
         then extractDependenciesRecursive (field packageLock ''dependencies'') (flatDeps es) []
         else Inr (flatDeps es))"
    by (simp add: extractDependencies_def)
next
  show "extractDependencies
     (JObj [(''packages'',
        JObj [('''', rootPkg), (''node_modules/foo'', JObj [(''version'', JStr ''1.0.0'')])])]) =
     Inr [\<lparr>dep.name = JStr ''foo'', version = JStr ''1.0.0'', path = ''node_modules/foo''\<rparr>]"
    by (simp add: extractDependencies_def packagesStep.simps stripNodeModules_def)
qed

theorem extractDependencies_flat_map_witness:
  "extractDependencies
     (JObj [(''lockfileVersion'', JNum (Fin 3)),
            (''packages'',
               JObj [('''', JObj [(''name'', JStr ''app''), (''version'', JStr ''0.1.0'')]),
                     (''node_modules/foo'', JObj [(''version'', JStr ''1.0.0'')]),
                     (''node_modules/bar'', JObj [(''name'', JStr ''baz''), (''version'', JStr ''2.0.0'')]),
                     (''node_modules/linked'', JObj [(''link'', JBool True)])])]) =
   Inr [\<lparr>dep.name = JStr ''foo'', version = JStr ''1.0.0'', path = ''node_modules/foo''\<rparr>,
        \<lparr>dep.name = JStr ''baz'', version = JStr ''2.0.0'', path = ''node_modules/bar''\<rparr>]"
  using extractDependencies_flat_map
    [of "JObj [(''lockfileVersion'', JNum (Fin 3)),
            (''packages'',
               JObj [('''', JObj [(''name'', JStr ''app''), (''version'', JStr ''0.1.0'')]),
                     (''node_modules/foo'', JObj [(''version'', JStr ''1.0.0'')]),
                     (''node_modules/bar'', JObj [(''name'', JStr ''baz''), (''version'', JStr ''2.0.0'')]),
                     (''node_modules/linked'', JObj [(''link'', JBool True)])])]"
        "[('''', JObj [(''name'', JStr ''app''), (''version'', JStr ''0.1.0'')]),
                     (''node_modules/foo'', JObj [(''version'', JStr ''1.0.0'')]),
                     (''node_modules/bar'', JObj [(''name'', JStr ''baz''), (''version'', JStr ''2.0.0'')]),
                     (''node_modules/linked'', JObj [(''link'', JBool True)])]"]
  by (simp add: field_def flatDeps_def flatName_def)

text \<open>
  Claim C9 says that every document with neither a \<^verbatim>\<open>packages\<close> nor a
  \<^verbatim>\<open>dependencies\<close> field gives the empty list and no error. The document \<^verbatim>\<open>null\<close>,
  which \<^verbatim>\<open>JSON.parse\<close> returns for the text \<^verbatim>\<open>null\<close>, has neither field, and reading
  \<^verbatim>\<open>packageLock.packages\<close> from it raises a \<^verbatim>\<open>TypeError\<close>.
\<close>

theorem extractDependencies_null_document:
  "\<not> hasField JNull ''packages'' \<and> \<not> hasField JNull ''dependencies'' \<and>
   extractDependencies JNull = Inl TypeError"
  by (simp add: hasField_def extractDependencies_def)

text \<open>
  Claim C9, amended. For every document other than \<^verbatim>\<open>null\<close> (and \<^verbatim>\<open>undefined\<close>, which
  is no JSON value) that has neither a \<^verbatim>\<open>packages\<close> nor a \<^verbatim>\<open>dependencies\<close> field,
  the extraction returns the empty list without an error, and the scan reports zero
  packages analyzed.
\<close>

theorem extractDependencies_no_fields:
  assumes "packageLock \<noteq> JNull" and "packageLock \<noteq> JUndefined"
    and "\<not> hasField packageLock ''packages''" and "\<not> hasField packageLock ''dependencies''"
  shows "extractDependencies packageLock = Inr [] \<and>
         analyzePackageLock (Some data) packageLock =
           Inr (Some \<lparr>safe = 0, warnings = 0, threats = [], allPackages = []\<rparr>)"
proof -
  have "getProp packageLock k = Inr (field packageLock k)" for k
    using assms(1,2) by (rule getProp_field)
  moreover have "field packageLock ''packages'' = JUndefined"
    "field packageLock ''dependencies'' = JUndefined"
    using assms(3,4) by (simp_all add: field_absent)
  ultimately have "extractDependencies packageLock = Inr []"
    by (simp add: extractDependencies_def)
  then show ?thesis
    by (simp add: analyzePackageLock_def analyzeDependencies_def)
qed

theorem extractDependencies_no_fields_witness:
  "extractDependencies (JObj [(''lockfileVersion'', JNum (Fin 1))]) = Inr [] \<and>
   analyzePackageLock (Some sampleData) (JObj [(''lockfileVersion'', JNum (Fin 1))]) =
     Inr (Some \<lparr>safe = 0, warnings = 0, threats = [], allPackages = []\<rparr>)"
  using extractDependencies_no_fields [of "JObj [(''lockfileVersion'', JNum (Fin 1))]" sampleData]
  by (simp add: hasField_def)

lemma joinWith_snoc:
  "joinWith sep (xs @ [k]) = concat (map (\<lambda>a. a @ sep) xs) @ k"
proof (induction xs)
  case Nil
  then show ?case by simp
next
  case (Cons x xs)
  then show ?case by (cases xs) simp_all
qed

lemma truthy_entries: "truthy d \<Longrightarrow> objectEntries d = Inr (case objectEntries d of Inr es \<Rightarrow> es | Inl e \<Rightarrow> [])"
  by (cases d) simp_all

lemma recursiveEntries_walk:
  "\<forall>(a, k, node)\<in>set (walkNodes ancestors es). node \<noteq> JNull \<and> node \<noteq> JUndefined \<Longrightarrow>
   recursiveEntries es result (concat (map (\<lambda>a. a @ '' > '') ancestors)) =
     Inr (result @ map nodeDep (walkNodes ancestors es))"
proof (induction ancestors es arbitrary: result rule: walkNodes.induct)
  case (1 ancestors)
  then show ?case by simp
next
  case (2 ancestors k node rest)
  let ?prefix = "concat (map (\<lambda>a. a @ '' > '') ancestors)"
  let ?result1 = "result @ [nodeDep (ancestors, k, node)]"
  from "2.prems" have node: "node \<noteq> JNull" "node \<noteq> JUndefined" by simp_all
  then have rd: "getProp node f = Inr (field node f)" for f
    by (rule getProp_field)
  have dep: "\<lparr>dep.name = JStr k, version = field node ''version'', path = ?prefix @ k\<rparr> =
      nodeDep (ancestors, k, node)"
    by (simp add: nodeDep_def joinWith_snoc)
  have below: "recursiveEntries (children node) ?result1
        (concat (map (\<lambda>a. a @ '' > '') (ancestors @ [k]))) =
      Inr (?result1 @ map nodeDep (walkNodes (ancestors @ [k]) (children node)))"
    using "2.prems" by (intro "2.IH"(1)) auto
  have after: "recursiveEntries rest res ?prefix = Inr (res @ map nodeDep (walkNodes ancestors rest))"
    for res using "2.prems" by (intro "2.IH"(2)) auto
  show ?case
  proof (cases "truthy (field node ''dependencies'')")
    case True
    then have "objectEntries (field node ''dependencies'') = Inr (children node)"
      using truthy_entries [of "field node ''dependencies''"] by (simp add: children_def)
    then have "extractDependenciesRecursive (field node ''dependencies'') ?result1 (?prefix @ k @ '' > '') =
        Inr (?result1 @ map nodeDep (walkNodes (ancestors @ [k]) (children node)))"
      using below by (simp add: extractDependenciesRecursive.simps)
    with True show ?thesis
      by (simp add: rd dep after)
  next
    case False
    then have "children node = []" by (simp add: children_def)
    with False show ?thesis
      by (simp add: rd dep after)
  qed
qed


lemma extractDependencies_walk:
  assumes "getProp packageLock ''dependencies'' = Inr (JObj es)"
    and "\<not> truthy (field packageLock ''packages'')"
    and "\<forall>(a, k, node)\<in>set (walkNodes [] es). node \<noteq> JNull \<and> node \<noteq> JUndefined"
  shows "extractDependencies packageLock = Inr (map nodeDep (walkNodes [] es))"
proof -
  from assms(1) have "packageLock \<noteq> JNull \<and> packageLock \<noteq> JUndefined"
    by (rule getProp_Inr_defined)
  then have pk: "getProp packageLock ''packages'' = Inr (field packageLock ''packages'')"
    by (simp add: getProp_field)
  have "recursiveEntries es [] (concat (map (\<lambda>a. a @ '' > '') [])) =
      Inr ([] @ map nodeDep (walkNodes [] es))"
    using assms(3) by (rule recursiveEntries_walk)
  then have "extractDependenciesRecursive (JObj es) [] [] = Inr (map nodeDep (walkNodes [] es))"
    by (simp add: extractDependenciesRecursive.simps)
  with assms(1,2) pk show ?thesis
    by (simp add: extractDependencies_def)
qed

text \<open>
  Claim C7. For a document without \<^verbatim>\<open>packages\<close> whose \<^verbatim>\<open>dependencies\<close> field is a
  mapping, and in whose tree no node is \<^verbatim>\<open>null\<close>, the extraction returns one
  dependency for each node, in depth-first order with a parent before its children:
  its name is the node's key, its version the node's \<^verbatim>\<open>version\<close> field, and its path
  the names of the ancestors and the key joined by \<^verbatim>\<open>" > "\<close>. On the document with
  \<^verbatim>\<open>a\<close> (1.0.0) and, below it, \<^verbatim>\<open>b\<close> (2.0.0) the result is \<^verbatim>\<open>a\<close> with path \<^verbatim>\<open>a\<close>
  and \<^verbatim>\<open>b\<close> with path \<^verbatim>\<open>a > b\<close>.
\<close>

theorem extractDependencies_tree:
  "(getProp packageLock ''dependencies'' = Inr (JObj es) \<and>
    \<not> truthy (field packageLock ''packages'') \<and>
    (\<forall>(a, k, node)\<in>set (walkNodes [] es). node \<noteq> JNull \<and> node \<noteq> JUndefined) \<longrightarrow>
      extractDependencies packageLock =
        Inr (map (\<lambda>(ancestors, k, node).
                    \<lparr>dep.name = JStr k, version = field node ''version'',
                     path = joinWith '' > '' (ancestors @ [k])\<rparr>)
               (walkNodes [] es))) \<and>
   extractDependencies
     (JObj [(''dependencies'',
        JObj [(''a'', JObj [(''version'', JStr ''1.0.0''),
                            (''dependencies'', JObj [(''b'', JObj [(''version'', JStr ''2.0.0'')])])])])]) =
     Inr [\<lparr>dep.name = JStr ''a'', version = JStr ''1.0.0'', path = ''a''\<rparr>,
          \<lparr>dep.name = JStr ''b'', version = JStr ''2.0.0'', path = ''a > b''\<rparr>]"
proof (intro conjI impI)
  have nodeDep: "nodeDep = (\<lambda>(ancestors, k, node).
                    \<lparr>dep.name = JStr k, version = field node ''version'',
                     path = joinWith '' > '' (ancestors @ [k])\<rparr>)"
    by (rule ext) (simp add: nodeDep_def)
  assume "getProp packageLock ''dependencies'' = Inr (JObj es) \<and>
    \<not> truthy (field packageLock ''packages'') \<and>
    (\<forall>(a, k, node)\<in>set (walkNodes [] es). node \<noteq> JNull \<and> node \<noteq> JUndefined)"
  then have "extractDependencies packageLock = Inr (map nodeDep (walkNodes [] es))"
    by (intro extractDependencies_walk) simp_all
  then show "extractDependencies packageLock =
        Inr (map (\<lambda>(ancestors, k, node).
                    \<lparr>dep.name = JStr k, version = field node ''version'',
                     path = joinWith '' > '' (ancestors @ [k])\<rparr>)
               (walkNodes [] es))"
    by (simp only: nodeDep)
next
  show "extractDependencies
     (JObj [(''dependencies'',
        JObj [(''a'', JObj [(''version'', JStr ''1.0.0''),
                            (''dependencies'', JObj [(''b'', JObj [(''version'', JStr ''2.0.0'')])])])])]) =
     Inr [\<lparr>dep.name = JStr ''a'', version = JStr ''1.0.0'', path = ''a''\<rparr>,
          \<lparr>dep.name = JStr ''b'', version = JStr ''2.0.0'', path = ''a > b''\<rparr>]"
    by (simp add: extractDependencies_def extractDependenciesRecursive.simps)
qed

theorem extractDependencies_tree_witness:
  "walkNodes []
     [(''a'', JObj [(''version'', JStr ''1.0.0''),
                    (''dependencies'', JObj [(''b'', JObj [(''version'', JStr ''2.0.0'')]),
                                             (''c'', JObj [])])]),
      (''d'', JObj [(''version'', JStr ''4.0.0'')])] =
     [([], ''a'', JObj [(''version'', JStr ''1.0.0''),
                    (''dependencies'', JObj [(''b'', JObj [(''version'', JStr ''2.0.0'')]),
                                             (''c'', JObj [])])]),
      ([''a''], ''b'', JObj [(''version'', JStr ''2.0.0'')]),
      ([''a''], ''c'', JObj []),
      ([], ''d'', JObj [(''version'', JStr ''4.0.0'')])] \<and>
   extractDependencies
     (JObj [(''lockfileVersion'', JNum (Fin 1)),
            (''dependencies'',
               JObj [(''a'', JObj [(''version'', JStr ''1.0.0''),
                    (''dependencies'', JObj [(''b'', JObj [(''version'', JStr ''2.0.0'')]),
                                             (''c'', JObj [])])]),
                     (''d'', JObj [(''version'', JStr ''4.0.0'')])])]) =
     Inr [\<lparr>dep.name = JStr ''a'', version = JStr ''1.0.0'', path = ''a''\<rparr>,
          \<lparr>dep.name = JStr ''b'', version = JStr ''2.0.0'', path = ''a > b''\<rparr>,
          \<lparr>dep.name = JStr ''c'', version = JUndefined, path = ''a > c''\<rparr>,
          \<lparr>dep.name = JStr ''d'', version = JStr ''4.0.0'', path = ''d''\<rparr>]"
proof -
  let ?es = "[(''a'', JObj [(''version'', JStr ''1.0.0''),
                    (''dependencies'', JObj [(''b'', JObj [(''version'', JStr ''2.0.0'')]),
                                             (''c'', JObj [])])]),
      (''d'', JObj [(''version'', JStr ''4.0.0'')])]"
  have walk: "walkNodes [] ?es =
     [([], ''a'', JObj [(''version'', JStr ''1.0.0''),
                    (''dependencies'', JObj [(''b'', JObj [(''version'', JStr ''2.0.0'')]),
                                             (''c'', JObj [])])]),
      ([''a''], ''b'', JObj [(''version'', JStr ''2.0.0'')]),
      ([''a''], ''c'', JObj []),
      ([], ''d'', JObj [(''version'', JStr ''4.0.0'')])]"
    by (simp add: children_def field_def)
  note tree = extractDependencies_tree
      [of "JObj [(''lockfileVersion'', JNum (Fin 1)), (''dependencies'', JObj ?es)]" ?es,
       unfolded walk]
  from tree walk show ?thesis
    by (simp add: field_def)
qed

lemma checkPackage_undefined_version:
  assumes "k \<in> entry.name ` set (compromisedPackages data)"
  shows "\<exists>cvs. checkPackage data (JStr k) JUndefined =
           Some \<lparr>severity = Warning, compromisedVersions = cvs,
                 installedVersion = JUndefined, exactMatch = False\<rparr>"
proof (cases "find (\<lambda>pkg. JStr (entry.name pkg) = JStr k) (compromisedPackages data)")
  case None
  with assms show ?thesis by (auto simp: find_None_iff)
next
  case (Some e)
  have "\<not> isHigher JUndefined c" for c
    by (simp add: isHigher_def compareVersions_def splitParts_def)
  moreover have "JUndefined \<notin> JStr ` set (entry.compromisedVersions e)" by auto
  ultimately show ?thesis by (simp add: checkPackage_found [OF Some])
qed

lemma map_filter_member:
  "x \<in> set xs \<Longrightarrow> f x = Some y \<Longrightarrow> y \<in> set (List.map_filter f xs)"
  by (induction xs) (auto simp: map_filter_simps split: option.splits)

text \<open>
  Claim C10. In a version 1 document (as in claim C7), a node without a \<^verbatim>\<open>version\<close>
  field still gives a dependency, whose version is \<^verbatim>\<open>undefined\<close>; when the key of the
  node is the name of an entry of the data, the scan holds a finding for it, of severity
  \<open>Warning\<close>. The flat-map strategy, in contrast, adds nothing for an entry without a
  \<^verbatim>\<open>version\<close> field.
\<close>

theorem versionless_tree_node_reported:
  "(getProp packageLock ''dependencies'' = Inr (JObj es) \<and>
    \<not> truthy (field packageLock ''packages'') \<and>
    (\<forall>(a, k, node)\<in>set (walkNodes [] es). node \<noteq> JNull \<and> node \<noteq> JUndefined) \<and>
    (ancestors, k, node) \<in> set (walkNodes [] es) \<and>
    \<not> hasField node ''version'' \<and>
    k \<in> entry.name ` set (compromisedPackages data) \<longrightarrow>
      (\<exists>res t. analyzePackageLock (Some data) packageLock = Inr (Some res) \<and>
         \<lparr>dep.name = JStr k, version = JUndefined,
          path = joinWith '' > '' (ancestors @ [k])\<rparr> \<in> set (allPackages res) \<and>
         \<lparr>dep.name = JStr k, version = JUndefined,
          path = joinWith '' > '' (ancestors @ [k]), threat = t\<rparr> \<in> set (threats res) \<and>
         severity t = Warning \<and> exactMatch t = False)) \<and>
   (p \<noteq> [] \<and> pkg \<noteq> JNull \<and> pkg \<noteq> JUndefined \<and> \<not> hasField pkg ''version'' \<longrightarrow>
      packagesStep acc (p, pkg) = Inr acc)"
proof (intro conjI impI)
  assume h: "getProp packageLock ''dependencies'' = Inr (JObj es) \<and>
    \<not> truthy (field packageLock ''packages'') \<and>
    (\<forall>(a, k, node)\<in>set (walkNodes [] es). node \<noteq> JNull \<and> node \<noteq> JUndefined) \<and>
    (ancestors, k, node) \<in> set (walkNodes [] es) \<and>
    \<not> hasField node ''version'' \<and>
    k \<in> entry.name ` set (compromisedPackages data)"
  let ?deps = "map nodeDep (walkNodes [] es)"
  let ?d = "\<lparr>dep.name = JStr k, version = JUndefined, path = joinWith '' > '' (ancestors @ [k])\<rparr>"
  from h have "extractDependencies packageLock = Inr ?deps"
    by (intro extractDependencies_walk) simp_all
  then have run: "analyzePackageLock (Some data) packageLock =
      Inr (Some (analyzeDependencies data ?deps))"
    by (simp add: analyzePackageLock_def)
  from h have "nodeDep (ancestors, k, node) = ?d"
    by (simp add: nodeDep_def field_absent)
  with h have member: "?d \<in> set ?deps" by (metis image_eqI set_map)
  from h obtain cvs where chk: "checkPackage data (JStr k) JUndefined =
      Some \<lparr>severity = Warning, compromisedVersions = cvs,
            installedVersion = JUndefined, exactMatch = False\<rparr>"
    using checkPackage_undefined_version [of k data] by auto
  let ?t = "\<lparr>severity = Warning, compromisedVersions = cvs,
            installedVersion = JUndefined, exactMatch = False\<rparr>"
  let ?finding = "\<lambda>d::dep. map_option
      (\<lambda>t. \<lparr>dep.name = dep.name d, version = version d, path = path d, threat = t\<rparr>)
      (checkPackage data (dep.name d) (version d))"
  have "?finding ?d = Some \<lparr>dep.name = JStr k, version = JUndefined,
          path = joinWith '' > '' (ancestors @ [k]), threat = ?t\<rparr>"
    by (simp add: chk)
  with member have "\<lparr>dep.name = JStr k, version = JUndefined,
          path = joinWith '' > '' (ancestors @ [k]), threat = ?t\<rparr>
        \<in> set (List.map_filter ?finding ?deps)"
    by (rule map_filter_member)
  then have "\<lparr>dep.name = JStr k, version = JUndefined,
          path = joinWith '' > '' (ancestors @ [k]), threat = ?t\<rparr>
        \<in> set (threats (analyzeDependencies data ?deps))"
    by (simp only: analyzeDependencies_eq results.simps)
  moreover have "?d \<in> set (allPackages (analyzeDependencies data ?deps))"
    using member by (simp add: analyzeDependencies_eq)
  ultimately show "\<exists>res t. analyzePackageLock (Some data) packageLock = Inr (Some res) \<and>
         \<lparr>dep.name = JStr k, version = JUndefined,
          path = joinWith '' > '' (ancestors @ [k])\<rparr> \<in> set (allPackages res) \<and>
         \<lparr>dep.name = JStr k, version = JUndefined,
          path = joinWith '' > '' (ancestors @ [k]), threat = t\<rparr> \<in> set (threats res) \<and>
         severity t = Warning \<and> exactMatch t = False"
    using run by (intro exI [of _ "analyzeDependencies data ?deps"] exI [of _ ?t]) simp
next
  assume "p \<noteq> [] \<and> pkg \<noteq> JNull \<and> pkg \<noteq> JUndefined \<and> \<not> hasField pkg ''version''"
  then show "packagesStep acc (p, pkg) = Inr acc"
    by (simp add: packagesStep.simps getProp_field field_absent Let_def)
qed

theorem versionless_tree_node_reported_witness:
  "(\<exists>res t. analyzePackageLock (Some sampleData)
       (JObj [(''dependencies'', JObj [(''X'', JObj [(''resolved'', JStr ''file:x'')])])]) =
         Inr (Some res) \<and>
       \<lparr>dep.name = JStr ''X'', version = JUndefined, path = ''X''\<rparr> \<in> set (allPackages res) \<and>
       \<lparr>dep.name = JStr ''X'', version = JUndefined, path = ''X'', threat = t\<rparr>
         \<in> set (threats res) \<and>
       severity t = Warning \<and> exactMatch t = False) \<and>
   packagesStep [] (''node_modules/X'', JObj [(''resolved'', JStr ''file:x'')]) = Inr []"
proof -
  let ?node = "JObj [(''resolved'', JStr ''file:x'')]"
  let ?lock = "JObj [(''dependencies'', JObj [(''X'', ?node)])]"
  have walk: "walkNodes [] [(''X'', ?node)] = [([], ''X'', ?node)]"
    by (simp add: children_def field_def)
  from versionless_tree_node_reported
    [of ?lock "[(''X'', ?node)]" "[]" "''X''" ?node sampleData "''node_modules/X''" ?node "[]",
     unfolded walk]
  show ?thesis
    by (simp add: hasField_def field_def sampleData_def)
qed

end
